theory Spec2Isabelle
  imports Main
begin

section \<open>Python errors\<close>

text \<open>
  The exceptions the modelled code can raise: subscripting \<open>False\<close> (TypeError),
  subscripting an empty list (IndexError) and a failed \<open>assert\<close> (AssertionError).
\<close>

datatype error = TypeError | IndexError | AssertionError

section \<open>tools/text/syllable\_tokenizer.py\<close>

subsection \<open>ngrams\<close>

text \<open>
  \<open>ngrams(sequence, n=3)\<close> with no padding: \<open>tee\<close> makes three copies of the sequence,
  the i-th copy is advanced i times, and \<open>zip\<close> pairs them up, stopping at the shortest.
\<close>

definition ngrams3 :: "'a list \<Rightarrow> ('a \<times> 'a \<times> 'a) list" where
  "ngrams3 sequence = zip sequence (zip (drop 1 sequence) (drop 2 sequence))"

subsection \<open>SyllableTokenizer.\_\_init\_\_\<close>

text \<open>
  The object holds \<open>self.vowels\<close> (level 0 of the hierarchy, a list) and
  \<open>self.phoneme_map\<close> (a dict from symbol to sonority level).
\<close>

record SyllableTokenizer =
  vowels :: "string list"
  phoneme_map :: "string \<rightharpoonup> int"

definition en_sonority_hierarchy :: "string list list" where
  "en_sonority_hierarchy =
    [[''AO'', ''AA'', ''IY'', ''UW'', ''EH'', ''IH'', ''UH'', ''AH'', ''AE'', ''EY'', ''AY'',
      ''OW'', ''AW'', ''OY'', ''ER''],
     [''Y'', ''W''],
     [''L'', ''EL'', ''R'', ''DX'', ''NX''],
     [''M'', ''EM'', ''N'', ''EN'', ''NG'', ''ENG''],
     [''P'', ''B'', ''T'', ''D'', ''K'', ''G'', ''CH'', ''JH'', ''F'', ''V'', ''TH'', ''DH'',
      ''S'', ''Z'', ''SH'', ''ZH'', ''HH'']]"

definition stresses :: "string list" where
  "stresses = [''0'', ''1'', ''2'']"

text \<open>
  The default branch of the constructor: level 0 of the English hierarchy is replaced by
  \<open>[base + stress for base in sonority_hierarchy[0] for stress in stresses]\<close>.
\<close>

definition default_sonority_hierarchy :: "string list list" where
  "default_sonority_hierarchy =
    (let sonority_hierarchy = en_sonority_hierarchy;
         vowels = concat (map (\<lambda>base. map (\<lambda>stress. base @ stress) stresses)
                              (sonority_hierarchy ! 0))
     in sonority_hierarchy[0 := vowels])"

text \<open>
  The inner loop \<open>for c in level\<close>: the symbol and its upper-cased spelling are both
  stored with the level's value (a later store overwrites an earlier one). \<open>str.upper\<close>
  is a built-in of Python that follows the Unicode tables; it is the parameter \<open>upper\<close>
  here, so every result below holds for whatever \<open>str.upper\<close> computes.
\<close>

definition register_level ::
  "(string \<Rightarrow> string) \<Rightarrow> int \<Rightarrow> (string \<rightharpoonup> int) \<Rightarrow> string list \<Rightarrow> (string \<rightharpoonup> int)" where
  "register_level upper sonority_level m level =
     foldl (\<lambda>m c. (m(c \<mapsto> sonority_level))(upper c \<mapsto> sonority_level)) m level"

text \<open>The outer loop \<open>for i, level in enumerate(sonority_hierarchy)\<close>.\<close>

definition build_phoneme_map :: "(string \<Rightarrow> string) \<Rightarrow> string list list \<Rightarrow> (string \<rightharpoonup> int)" where
  "build_phoneme_map upper sonority_hierarchy =
     foldl (\<lambda>m (i, level).
              register_level upper (int (length sonority_hierarchy) - int i) m level)
           Map.empty (enumerate 0 sonority_hierarchy)"

text \<open>
  The constructor. The argument \<open>sonority_hierarchy\<close> defaults to \<open>False\<close>, which is
  \<open>None\<close> here; \<open>not sonority_hierarchy\<close> is true of \<open>False\<close> and of the empty list.
  When the default is not taken, \<open>sonority_hierarchy[0]\<close> raises TypeError on \<open>False\<close>
  and IndexError on the empty list. Nothing else is checked.
\<close>

definition SyllableTokenizer_init ::
  "(string \<Rightarrow> string) \<Rightarrow> string \<Rightarrow> string list list option \<Rightarrow> error + SyllableTokenizer" where
  "SyllableTokenizer_init upper lang sonority_hierarchy =
     (let sonority_hierarchy =
            (if (sonority_hierarchy = None \<or> sonority_hierarchy = Some []) \<and> lang = ''en''
             then Some default_sonority_hierarchy else sonority_hierarchy)
      in case sonority_hierarchy of
           None \<Rightarrow> Inl TypeError
         | Some [] \<Rightarrow> Inl IndexError
         | Some (level0 # levels) \<Rightarrow>
             Inr \<lparr>vowels = level0,
                  phoneme_map = build_phoneme_map upper (level0 # levels)\<rparr>)"

text \<open>
  \<open>str.upper\<close> on ASCII text: the letters a to z go to A to Z, every other character
  stays. Used for the tokenizer of the repository, whose symbols are ASCII.
\<close>

definition ascii_upper_char :: "char \<Rightarrow> char" where
  "ascii_upper_char c =
     (let n = (of_char c :: nat) in if 97 \<le> n \<and> n \<le> 122 then char_of (n - 32) else c)"

definition ascii_upper :: "string \<Rightarrow> string" where
  "ascii_upper s = map ascii_upper_char s"

text \<open>\<open>SSP = SyllableTokenizer()\<close>, the module-level tokenizer of text2syllable.py.\<close>

definition SSP :: SyllableTokenizer where
  "SSP = \<lparr>vowels = default_sonority_hierarchy ! 0,
          phoneme_map = build_phoneme_map ascii_upper default_sonority_hierarchy\<rparr>"

subsection \<open>assign\_values\<close>

text \<open>A symbol with no entry in the map raises KeyError, which the loop swallows.\<close>

fun assign_values :: "SyllableTokenizer \<Rightarrow> string list \<Rightarrow> (string \<times> int) list" where
  "assign_values st [] = []"
| "assign_values st (c # token) =
     (case phoneme_map st c of
        Some v \<Rightarrow> (c, v) # assign_values st token
      | None \<Rightarrow> assign_values st token)"

subsection \<open>validate\_syllables\<close>

text \<open>
  One pass of the loop over the state \<open>(valid_syllables, front)\<close>.
  \<open>valid_syllables[-1] += syllable\<close> extends the last accepted syllable.
\<close>

definition has_vowel :: "SyllableTokenizer \<Rightarrow> string list \<Rightarrow> bool" where
  "has_vowel st syllable = list_ex (\<lambda>phone. phone \<in> set (vowels st)) syllable"

definition validate_syllables_step ::
  "SyllableTokenizer \<Rightarrow> string list list \<times> string list \<Rightarrow> string list
     \<Rightarrow> string list list \<times> string list" where
  "validate_syllables_step st s syllable =
     (case s of (valid_syllables, front) \<Rightarrow>
        if \<not> has_vowel st syllable then
          (if length valid_syllables = 0 then (valid_syllables, front @ syllable)
           else (butlast valid_syllables @ [last valid_syllables @ syllable], front))
        else
          (if length valid_syllables = 0 then (valid_syllables @ [front @ syllable], front)
           else (valid_syllables @ [syllable], front)))"

definition validate_syllables :: "SyllableTokenizer \<Rightarrow> string list list \<Rightarrow> string list list" where
  "validate_syllables st syllable_list =
     fst (foldl (validate_syllables_step st) ([], []) syllable_list)"

subsection \<open>validate\_syllables2\<close>

text \<open>The inner loop computing \<open>first_vowel_i\<close> and \<open>multi_vowel\<close>.\<close>

definition find_vowels :: "SyllableTokenizer \<Rightarrow> string list \<Rightarrow> int \<times> bool" where
  "find_vowels st syllable =
     foldl (\<lambda>(first_vowel_i, multi_vowel) (i, phone).
              if phone \<in> set (vowels st) then
                (if first_vowel_i = - 1 then (int i, multi_vowel) else (first_vowel_i, True))
              else (first_vowel_i, multi_vowel))
           (- 1, False) (enumerate 0 syllable)"

text \<open>The outer loop; the \<open>assert\<close> aborts the whole call.\<close>

fun validate_syllables2_loop ::
  "SyllableTokenizer \<Rightarrow> string list list \<Rightarrow> string list list \<Rightarrow> error + string list list" where
  "validate_syllables2_loop st valid_syllables [] = Inr valid_syllables"
| "validate_syllables2_loop st valid_syllables (syllable # syllable_list) =
     (case find_vowels st syllable of (first_vowel_i, multi_vowel) \<Rightarrow>
        if \<not> first_vowel_i > - 1 then Inl AssertionError
        else if multi_vowel then
          validate_syllables2_loop st
            (valid_syllables @ [take (nat (first_vowel_i + 1)) syllable,
                                drop (nat (first_vowel_i + 1)) syllable])
            syllable_list
        else validate_syllables2_loop st (valid_syllables @ [syllable]) syllable_list)"

definition validate_syllables2 ::
  "SyllableTokenizer \<Rightarrow> string list list \<Rightarrow> error + string list list" where
  "validate_syllables2 st syllable_list = validate_syllables2_loop st [] syllable_list"

subsection \<open>tokenize\<close>

text \<open>
  One pass of the trigram loop over the state \<open>(syllable_list, syllable)\<close>.
  \<open>prev_value >= focal_value == next_value\<close> is Python's chained comparison.
\<close>

definition tokenize_step ::
  "string list list \<times> string list
     \<Rightarrow> (string \<times> int) \<times> (string \<times> int) \<times> (string \<times> int)
     \<Rightarrow> string list list \<times> string list" where
  "tokenize_step s trigram =
     (case (s, trigram) of
        ((syllable_list, syllable),
         ((prev_phoneme, prev_value), (focal_phoneme, focal_value), (next_phoneme, next_value))) \<Rightarrow>
          if prev_value \<ge> focal_value \<and> focal_value = next_value then
            (syllable_list @ [syllable @ [focal_phoneme]], [])
          else if prev_value > focal_value \<and> focal_value < next_value then
            (syllable_list @ [syllable], [focal_phoneme])
          else (syllable_list, syllable @ [focal_phoneme]))"

text \<open>
  \<open>sum(token.count(x) for x in self.vowels)\<close> counts, for every entry of the vowel
  list, its occurrences in the token. \<open>syllables_values[0]\<close> raises IndexError on an
  empty list.
\<close>

definition tokenize :: "SyllableTokenizer \<Rightarrow> string list \<Rightarrow> error + string list list" where
  "tokenize st token =
     (let syllables_values = assign_values st token in
      if sum_list (map (\<lambda>x. count_list token x) (vowels st)) \<le> 1 then Inr [token]
      else
        (case syllables_values of
           [] \<Rightarrow> Inl IndexError
         | first # _ \<Rightarrow>
             (case foldl tokenize_step ([], [fst first]) (ngrams3 syllables_values) of
                (syllable_list, syllable) \<Rightarrow>
                  validate_syllables2 st
                    (validate_syllables st
                       (syllable_list @ [syllable @ [fst (last syllables_values)]])))))"

subsection \<open>syllable\<close>

text \<open>
  Python's \<open>xs[start:end]\<close> on a list: a negative index counts from the end, and both
  indices are clamped to the list; the slice is empty when the start is not before the end.
\<close>

definition py_slice_index :: "int \<Rightarrow> nat \<Rightarrow> nat" where
  "py_slice_index i n = (if i < 0 then nat (max (i + int n) 0) else min (nat i) n)"

definition py_slice :: "'a list \<Rightarrow> int \<Rightarrow> int \<Rightarrow> 'a list" where
  "py_slice xs start end' =
     (let s = py_slice_index start (length xs); e = py_slice_index end' (length xs)
      in take (e - s) (drop s xs))"

text \<open>\<open>sep.join(xs)\<close>.\<close>

fun join :: "string \<Rightarrow> string list \<Rightarrow> string" where
  "join sep [] = []"
| "join sep [x] = x"
| "join sep (x # y # xs) = x @ sep @ join sep (y # xs)"

text \<open>
  The loop \<open>for n in phone_nums\<close> over the state
  \<open>(start, syllables, phone_nums_in_syllable)\<close>; an exception of tokenize ends the call.
\<close>

fun syllable_loop ::
  "SyllableTokenizer \<Rightarrow> string list \<Rightarrow> int \<Rightarrow> string list \<times> int list \<Rightarrow> int list
     \<Rightarrow> error + string list \<times> int list" where
  "syllable_loop st phones start (syllables, phone_nums_in_syllable) [] =
     Inr (syllables, phone_nums_in_syllable)"
| "syllable_loop st phones start (syllables, phone_nums_in_syllable) (n # phone_nums) =
     (let end' = start + n;
          phone = py_slice phones start end';
          start = end'
      in if n \<le> 2 then
           syllable_loop st phones start
             (syllables @ [join '' '' phone], phone_nums_in_syllable @ [n]) phone_nums
         else
           (case tokenize st phone of
              Inl e \<Rightarrow> Inl e
            | Inr syllable \<Rightarrow>
                syllable_loop st phones start
                  (syllables @ map (join '' '') syllable,
                   phone_nums_in_syllable @ map (\<lambda>syl. int (length syl)) syllable)
                  phone_nums))"

definition syllable ::
  "SyllableTokenizer \<Rightarrow> string list \<Rightarrow> int list \<Rightarrow> error + string list \<times> int list" where
  "syllable st phones phone_nums = syllable_loop st phones 0 ([], []) phone_nums"

section \<open>tools/text/text2syllable.py\<close>

text \<open>
  A Python \<open>str\<close> is a sequence of Unicode code points, here natural numbers.
  \<open>str.strip()\<close> removes the characters of \<open>str.isspace\<close> from both ends.
\<close>

type_synonym unicode = "nat list"

definition isspace :: "nat \<Rightarrow> bool" where
  "isspace c \<longleftrightarrow>
     (9 \<le> c \<and> c \<le> 13) \<or> (28 \<le> c \<and> c \<le> 32) \<or> c = 133 \<or> c = 160 \<or> c = 5760 \<or>
     (8192 \<le> c \<and> c \<le> 8202) \<or> c = 8232 \<or> c = 8233 \<or> c = 8239 \<or> c = 8287 \<or> c = 12288"

definition strip :: "unicode \<Rightarrow> unicode" where
  "strip s = rev (dropWhile isspace (rev (dropWhile isspace s)))"

text \<open>
  \<open>re.findall(pattern, text)\<close> for the pattern \<open>[C]+|[^C]+\<close>, where \<open>C\<close> is
  \<open>UNICODE_ALL_CN\<close>: every character is in the class or in its complement, so at each
  position the greedy \<open>+\<close> takes the longest run of characters on the same side as the
  first one, and the search goes on after the run. \<open>UNICODE_ALL_CN\<close> comes from
  tools/text/unicode.py; the class it describes is the parameter \<open>cn\<close>.
\<close>

function findall_runs :: "(nat \<Rightarrow> bool) \<Rightarrow> unicode \<Rightarrow> unicode list" where
  "findall_runs cn [] = []"
| "findall_runs cn (c # cs) =
     (c # takeWhile (\<lambda>d. cn d = cn c) cs) # findall_runs cn (dropWhile (\<lambda>d. cn d = cn c) cs)"
  by pat_completeness auto
termination
  by (relation "measure (\<lambda>(cn, text). length text)")
     (auto simp: length_dropWhile_le less_Suc_eq_le)

definition split_zh_en :: "(nat \<Rightarrow> bool) \<Rightarrow> unicode \<Rightarrow> unicode list" where
  "split_zh_en cn text =
     (let segments = findall_runs cn text
      in map strip (filter (\<lambda>seg. strip seg \<noteq> []) segments))"

section \<open>Notions used in the statements\<close>

text \<open>The number of vowel phonemes of a sequence: membership in the vowel level.\<close>

definition vowel_count :: "SyllableTokenizer \<Rightarrow> string list \<Rightarrow> nat" where
  "vowel_count st syl = length (filter (\<lambda>phone. phone \<in> set (vowels st)) syl)"

text \<open>
  A tokenizer whose vowel list has no repetition and whose vowels all have an entry in the
  map. The constructor registers every vowel, so only the absence of repetition is a
  condition on the hierarchy.
\<close>

definition vowels_registered :: "SyllableTokenizer \<Rightarrow> bool" where
  "vowels_registered st \<longleftrightarrow>
     distinct (vowels st) \<and> list_all (\<lambda>v. phoneme_map st v \<noteq> None) (vowels st)"

text \<open>
  The vowels are the symbols of the highest sonority: every vowel has the value \<open>t\<close>,
  and every other symbol of the map has a smaller one.
\<close>

definition vowels_on_top :: "SyllableTokenizer \<Rightarrow> int \<Rightarrow> bool" where
  "vowels_on_top st t \<longleftrightarrow>
     (\<forall>c r. phoneme_map st c = Some r \<longrightarrow> (if c \<in> set (vowels st) then r = t else r < t))"

text \<open>What validate\_syllables2 does to one syllable that has a vowel.\<close>

definition split_after_first_vowel :: "SyllableTokenizer \<Rightarrow> string list \<Rightarrow> string list list" where
  "split_after_first_vowel st syl =
     (let k = length (takeWhile (\<lambda>phone. phone \<notin> set (vowels st)) syl)
      in if 2 \<le> vowel_count st syl then [take (Suc k) syl, drop (Suc k) syl]
         else [syl])"

text \<open>
  The words of a sentence as the specification describes them: the phone stream cut into
  consecutive chunks of the given sizes.
\<close>

fun word_slices :: "'a list \<Rightarrow> nat list \<Rightarrow> 'a list list" where
  "word_slices phones [] = []"
| "word_slices phones (n # ns) = take n phones # word_slices (drop n phones) ns"

text \<open>
  The syllables of one word as the specification describes them: a word of at most two
  phones is one syllable, a longer word is what tokenize makes of it.
\<close>

definition word_syllables :: "SyllableTokenizer \<Rightarrow> string list \<Rightarrow> string list list" where
  "word_syllables st word =
     (if length word \<le> 2 then [word]
      else (case tokenize st word of Inr syllable_list \<Rightarrow> syllable_list | Inl e \<Rightarrow> []))"

section \<open>Notions used in the proofs\<close>

text \<open>
  What the state of validate\_syllables holds: the pending prefix while no syllable has been
  accepted, the accepted syllables afterwards.
\<close>

definition vs_content :: "string list list \<times> string list \<Rightarrow> string list" where
  "vs_content s = (if fst s = [] then snd s else concat (fst s))"

text \<open>A ranked phoneme whose value is at most \<open>t\<close>, and is \<open>t\<close> exactly for a vowel.\<close>

definition ranked :: "SyllableTokenizer \<Rightarrow> int \<Rightarrow> string \<times> int \<Rightarrow> bool" where
  "ranked st t x \<longleftrightarrow> snd x \<le> t \<and> (fst x \<in> set (vowels st) \<longleftrightarrow> snd x = t)"

text \<open>
  The invariant of the trigram loop, for the open syllable \<open>cur\<close>, the previous phoneme
  \<open>a\<close> and the focal one \<open>b\<close>: the open syllable has at most two vowels, and when
  it has two, or has one and \<open>a\<close> is a consonant, the sonority falls from \<open>a\<close> to \<open>b\<close>.
\<close>

definition scan_inv :: "SyllableTokenizer \<Rightarrow> string list \<Rightarrow> string \<times> int \<Rightarrow> string \<times> int \<Rightarrow> bool" where
  "scan_inv st cur a b \<longleftrightarrow>
     vowel_count st cur \<le> 2 \<and>
     (vowel_count st cur = 2 \<or> (vowel_count st cur = 1 \<and> fst a \<notin> set (vowels st))
        \<longrightarrow> snd b < snd a)"

text \<open>The syllable list that tokenize hands to the repair passes.\<close>

definition tentative_syllables :: "(string \<times> int) list \<Rightarrow> string list list" where
  "tentative_syllables sv =
     (case foldl tokenize_step ([], [fst (hd sv)]) (ngrams3 sv) of
        (sl, s) \<Rightarrow> sl @ [s @ [fst (last sv)]])"

section \<open>Properties of the constructor\<close>

subsection \<open>The phoneme map\<close>

lemma register_level_apply:
  "register_level up l m level c = (if c \<in> set level \<union> up ` set level then Some l else m c)"
  unfolding register_level_def by (induction level arbitrary: m) auto

lemma build_fold_Some:
  "foldl (\<lambda>m (i, level). register_level up (n - int i) m level) m (enumerate k h) c = Some r \<Longrightarrow>
   m c = Some r \<or> (\<exists>j<length h. r = n - int (k + j) \<and> c \<in> set (h ! j) \<union> up ` set (h ! j))"
proof (induction h arbitrary: m k)
  case Nil
  then show ?case by simp
next
  case (Cons level h)
  from Cons.prems
  have "foldl (\<lambda>m (i, level). register_level up (n - int i) m level)
          (register_level up (n - int k) m level) (enumerate (Suc k) h) c = Some r"
    by simp
  from Cons.IH [OF this] show ?case
  proof
    assume "register_level up (n - int k) m level c = Some r"
    then have "m c = Some r \<or> (r = n - int k \<and> c \<in> set level \<union> up ` set level)"
      by (simp add: register_level_apply split: if_splits)
    then show ?thesis by auto
  next
    assume "\<exists>j<length h. r = n - int (Suc k + j) \<and> c \<in> set (h ! j) \<union> up ` set (h ! j)"
    then obtain j where "j < length h" "r = n - int (Suc k + j)" "c \<in> set (h ! j) \<union> up ` set (h ! j)"
      by blast
    then have "Suc j < length (level # h) \<and> r = n - int (k + Suc j) \<and>
               c \<in> set ((level # h) ! Suc j) \<union> up ` set ((level # h) ! Suc j)"
      by simp
    then show ?thesis by blast
  qed
qed

lemma build_fold_keeps:
  "m c \<noteq> None \<Longrightarrow>
   foldl (\<lambda>m (i, level). register_level up (n - int i) m level) m (enumerate k h) c \<noteq> None"
  by (induction h arbitrary: m k) (simp_all add: register_level_apply)

lemma build_fold_registers:
  "level \<in> set h \<Longrightarrow> c \<in> set level \<union> up ` set level \<Longrightarrow>
   foldl (\<lambda>m (i, level). register_level up (n - int i) m level) m (enumerate k h) c \<noteq> None"
proof (induction h arbitrary: m k)
  case Nil
  then show ?case by simp
next
  case (Cons l h)
  show ?case
  proof (cases "level = l")
    case True
    with Cons.prems(2) have "register_level up (n - int k) m l c \<noteq> None"
      by (simp add: register_level_apply)
    then show ?thesis by (simp add: build_fold_keeps)
  next
    case False
    with Cons.prems have "level \<in> set h" by simp
    from Cons.IH [OF this Cons.prems(2)] show ?thesis by simp
  qed
qed

lemma build_phoneme_map_Some:
  "build_phoneme_map up h c = Some r \<Longrightarrow>
   \<exists>j<length h. r = int (length h) - int j \<and> c \<in> set (h ! j) \<union> up ` set (h ! j)"
  unfolding build_phoneme_map_def by (drule build_fold_Some) simp

lemma build_phoneme_map_registers:
  "level \<in> set h \<Longrightarrow> c \<in> set level \<Longrightarrow>
   build_phoneme_map up h c \<noteq> None \<and> build_phoneme_map up h (up c) \<noteq> None"
  unfolding build_phoneme_map_def by (simp add: build_fold_registers)

lemma default_sonority_hierarchy_eq:
  "default_sonority_hierarchy =
    [[''AO0'', ''AO1'', ''AO2'', ''AA0'', ''AA1'', ''AA2'', ''IY0'', ''IY1'', ''IY2'',
      ''UW0'', ''UW1'', ''UW2'', ''EH0'', ''EH1'', ''EH2'', ''IH0'', ''IH1'', ''IH2'',
      ''UH0'', ''UH1'', ''UH2'', ''AH0'', ''AH1'', ''AH2'', ''AE0'', ''AE1'', ''AE2'',
      ''EY0'', ''EY1'', ''EY2'', ''AY0'', ''AY1'', ''AY2'', ''OW0'', ''OW1'', ''OW2'',
      ''AW0'', ''AW1'', ''AW2'', ''OY0'', ''OY1'', ''OY2'', ''ER0'', ''ER1'', ''ER2''],
     [''Y'', ''W''],
     [''L'', ''EL'', ''R'', ''DX'', ''NX''],
     [''M'', ''EM'', ''N'', ''EN'', ''NG'', ''ENG''],
     [''P'', ''B'', ''T'', ''D'', ''K'', ''G'', ''CH'', ''JH'', ''F'', ''V'', ''TH'', ''DH'',
      ''S'', ''Z'', ''SH'', ''ZH'', ''HH'']]"
  by (simp add: default_sonority_hierarchy_def en_sonority_hierarchy_def stresses_def)

lemma ascii_upper_default:
  "\<forall>level\<in>set default_sonority_hierarchy. map ascii_upper level = level"
  by (simp add: default_sonority_hierarchy_eq ascii_upper_def ascii_upper_char_def)


lemma SSP_vowels:
  "vowels SSP =
     [''AO0'', ''AO1'', ''AO2'', ''AA0'', ''AA1'', ''AA2'', ''IY0'', ''IY1'', ''IY2'',
      ''UW0'', ''UW1'', ''UW2'', ''EH0'', ''EH1'', ''EH2'', ''IH0'', ''IH1'', ''IH2'',
      ''UH0'', ''UH1'', ''UH2'', ''AH0'', ''AH1'', ''AH2'', ''AE0'', ''AE1'', ''AE2'',
      ''EY0'', ''EY1'', ''EY2'', ''AY0'', ''AY1'', ''AY2'', ''OW0'', ''OW1'', ''OW2'',
      ''AW0'', ''AW1'', ''AW2'', ''OY0'', ''OY1'', ''OY2'', ''ER0'', ''ER1'', ''ER2'']"
  by (simp add: SSP_def default_sonority_hierarchy_eq)

lemma SSP_init: "SyllableTokenizer_init ascii_upper ''en'' None = Inr SSP"
  by (simp add: SyllableTokenizer_init_def SSP_def default_sonority_hierarchy_eq)

lemma SSP_vowels_registered: "vowels_registered SSP"
proof -
  have "distinct (vowels SSP)"
    by (simp add: SSP_vowels)
  moreover have "phoneme_map SSP v \<noteq> None" if "v \<in> set (vowels SSP)" for v
  proof -
    have "default_sonority_hierarchy ! 0 \<in> set default_sonority_hierarchy"
      by (simp add: default_sonority_hierarchy_eq)
    moreover have "v \<in> set (default_sonority_hierarchy ! 0)"
      using that by (simp add: SSP_def)
    ultimately show ?thesis
      using build_phoneme_map_registers [of "default_sonority_hierarchy ! 0" default_sonority_hierarchy v ascii_upper]
      by (simp add: SSP_def)
  qed
  ultimately show ?thesis
    by (simp add: vowels_registered_def list_all_iff)
qed

lemma default_consonants_not_vowels:
  "\<forall>c\<in>set (concat (tl default_sonority_hierarchy)). c \<notin> set (vowels SSP)"
  by (simp add: SSP_vowels default_sonority_hierarchy_eq)

lemma SSP_vowels_on_top: "vowels_on_top SSP 5"
  unfolding vowels_on_top_def
proof (intro allI impI)
  fix c r
  assume "phoneme_map SSP c = Some r"
  then have "build_phoneme_map ascii_upper default_sonority_hierarchy c = Some r"
    by (simp add: SSP_def)
  then obtain j where j: "j < length default_sonority_hierarchy"
      "r = int (length default_sonority_hierarchy) - int j"
      "c \<in> set (default_sonority_hierarchy ! j) \<union> ascii_upper ` set (default_sonority_hierarchy ! j)"
    using build_phoneme_map_Some by blast
  have len: "length default_sonority_hierarchy = 5"
    by (simp add: default_sonority_hierarchy_eq)
  have "default_sonority_hierarchy ! j \<in> set default_sonority_hierarchy"
    using j(1) by simp
  then have "map ascii_upper (default_sonority_hierarchy ! j) = default_sonority_hierarchy ! j"
    using ascii_upper_default by blast
  then have "ascii_upper ` set (default_sonority_hierarchy ! j) = set (default_sonority_hierarchy ! j)"
    by (metis set_map)
  with j(3) have mem: "c \<in> set (default_sonority_hierarchy ! j)" by simp
  show "if c \<in> set (vowels SSP) then r = 5 else r < 5"
  proof (cases j)
    case 0
    with mem j(2) len show ?thesis by (simp add: SSP_def)
  next
    case (Suc i)
    with j(1) have "i < length (tl default_sonority_hierarchy)"
      by simp
    then have "tl default_sonority_hierarchy ! i \<in> set (tl default_sonority_hierarchy)"
      by (rule nth_mem)
    moreover have "tl default_sonority_hierarchy ! i = default_sonority_hierarchy ! j"
      using \<open>i < length (tl default_sonority_hierarchy)\<close> Suc by (simp add: nth_tl)
    ultimately have "default_sonority_hierarchy ! j \<in> set (tl default_sonority_hierarchy)"
      by simp
    with mem have "c \<in> set (concat (tl default_sonority_hierarchy))" by auto
    with default_consonants_not_vowels have "c \<notin> set (vowels SSP)" by blast
    with Suc j(2) len show ?thesis by simp
  qed
qed

subsection \<open>The claims about the constructor\<close>

text \<open>
  C6, as the code has it: the constructor checks nothing about the hierarchy. It fails only
  when no hierarchy is supplied (False, or an empty list) and the language is not English,
  by the TypeError or IndexError of \<open>sonority_hierarchy[0]\<close>; for English an empty
  hierarchy is replaced by the default one; and every non-empty hierarchy is accepted
  as it is, its level 0 becoming the vowel list, empty or not.
\<close>

theorem init_outcome:
  "SyllableTokenizer_init upper lang sonority_hierarchy =
     (if sonority_hierarchy = None \<or> sonority_hierarchy = Some [] then
        (if lang = ''en'' then
           Inr \<lparr>vowels = default_sonority_hierarchy ! 0,
                phoneme_map = build_phoneme_map upper default_sonority_hierarchy\<rparr>
         else Inl (if sonority_hierarchy = None then TypeError else IndexError))
      else
        Inr \<lparr>vowels = hd (the sonority_hierarchy),
             phoneme_map = build_phoneme_map upper (the sonority_hierarchy)\<rparr>)"
  by (auto simp: SyllableTokenizer_init_def default_sonority_hierarchy_eq
           split: option.splits list.splits)

text \<open>
  The claim C6 as it was stated (construction fails whenever the hierarchy or its level 0 is
  empty) fails: a hierarchy with an empty level 0 yields a tokenizer with no vowel and a
  map for the other levels, and the empty hierarchy yields the default tokenizer.
\<close>

theorem init_accepts_empty_vowel_level:
  "SyllableTokenizer_init ascii_upper ''en'' (Some [[], [''a'']]) =
     Inr \<lparr>vowels = [], phoneme_map = build_phoneme_map ascii_upper [[], [''a'']]\<rparr> \<and>
   build_phoneme_map ascii_upper [[], [''a'']] ''a'' = Some 1 \<and>
   SyllableTokenizer_init ascii_upper ''en'' (Some []) = Inr SSP"
  by (simp add: SyllableTokenizer_init_def SSP_def default_sonority_hierarchy_eq
        build_phoneme_map_def register_level_def)

text \<open>
  C7, as the code has it: for every symbol placed in any level of a supplied hierarchy, the
  lookup of its original spelling and the lookup of its upper-cased spelling both succeed.
  (Nothing is registered for other spellings and the lookup does not fold the case.)
\<close>

theorem registered_spellings:
  assumes "SyllableTokenizer_init upper lang (Some sonority_hierarchy) = Inr st"
    and "sonority_hierarchy \<noteq> []"
    and "level \<in> set sonority_hierarchy" and "c \<in> set level"
  shows "phoneme_map st c \<noteq> None \<and> phoneme_map st (upper c) \<noteq> None"
proof -
  from assms(1,2) have "phoneme_map st = build_phoneme_map upper sonority_hierarchy"
    by (auto simp: SyllableTokenizer_init_def split: list.splits)
  with build_phoneme_map_registers [OF assms(3,4)] show ?thesis by simp
qed

theorem registered_spellings_witness:
  "SyllableTokenizer_init ascii_upper ''en'' (Some [[''a''], [''b'']]) =
     Inr \<lparr>vowels = [''a''], phoneme_map = build_phoneme_map ascii_upper [[''a''], [''b'']]\<rparr> \<and>
   [[''a''], [''b'']] \<noteq> [] \<and> [''b''] \<in> set [[''a''], [''b'']] \<and> ''b'' \<in> set [''b''] \<and>
   build_phoneme_map ascii_upper [[''a''], [''b'']] ''b'' \<noteq> None \<and>
   build_phoneme_map ascii_upper [[''a''], [''b'']] (ascii_upper ''b'') \<noteq> None"
proof -
  have init: "SyllableTokenizer_init ascii_upper ''en'' (Some [[''a''], [''b'']]) =
     Inr \<lparr>vowels = [''a''], phoneme_map = build_phoneme_map ascii_upper [[''a''], [''b'']]\<rparr>"
    by (simp add: SyllableTokenizer_init_def)
  from registered_spellings [OF init, of "[''b'']" "''b''"] init show ?thesis
    by simp
qed

text \<open>
  The claim C7 as it was stated (a lookup never fails only because of the letter case of
  the query) fails: the default hierarchy has AH0, and the lookup of ah0 finds nothing.
\<close>

theorem lower_case_lookup_fails:
  "SyllableTokenizer_init ascii_upper ''en'' None = Inr SSP \<and>
   ''AH0'' \<in> set (default_sonority_hierarchy ! 0) \<and> phoneme_map SSP ''AH0'' \<noteq> None \<and>
   ascii_upper ''ah0'' = ''AH0'' \<and> phoneme_map SSP ''ah0'' = None"
proof -
  have "phoneme_map SSP ''ah0'' = None"
  proof (cases "phoneme_map SSP ''ah0''")
    case None
    then show ?thesis .
  next
    case (Some r)
    then have "build_phoneme_map ascii_upper default_sonority_hierarchy ''ah0'' = Some r"
      by (simp add: SSP_def)
    then obtain j where "j < length default_sonority_hierarchy"
      "''ah0'' \<in> set (default_sonority_hierarchy ! j) \<union>
                 ascii_upper ` set (default_sonority_hierarchy ! j)"
      using build_phoneme_map_Some by blast
    moreover from this(1) have "default_sonority_hierarchy ! j \<in> set default_sonority_hierarchy"
      by simp
    then have "map ascii_upper (default_sonority_hierarchy ! j) = default_sonority_hierarchy ! j"
      using ascii_upper_default by blast
    then have "ascii_upper ` set (default_sonority_hierarchy ! j) = set (default_sonority_hierarchy ! j)"
      by (metis set_map)
    ultimately have "''ah0'' \<in> set (concat default_sonority_hierarchy)"
      by auto
    then show ?thesis
      by (simp add: default_sonority_hierarchy_eq)
  qed
  moreover have "phoneme_map SSP ''AH0'' \<noteq> None"
    using SSP_vowels_registered by (simp add: vowels_registered_def SSP_vowels)
  moreover have "ascii_upper ''ah0'' = ''AH0''"
    by code_simp
  ultimately show ?thesis
    by (simp add: SSP_init default_sonority_hierarchy_eq)
qed

section \<open>Properties of tokenize\<close>

subsection \<open>Auxiliary facts\<close>

lemma ngrams3_short [simp]:
  "ngrams3 [] = []" "ngrams3 [a] = []" "ngrams3 [a, b] = []"
  by (simp_all add: ngrams3_def)

lemma ngrams3_Cons3 [simp]:
  "ngrams3 (a # b # c # xs) = (a, b, c) # ngrams3 (b # c # xs)"
  by (simp add: ngrams3_def)

lemma two_or_more_induct [consumes 1, case_names Two More]:
  assumes "2 \<le> length xs"
    and "\<And>a b. P [a, b]"
    and "\<And>a b c xs. P (b # c # xs) \<Longrightarrow> P (a # b # c # xs)"
  shows "P xs"
  using assms(1)
proof (induction xs)
  case Nil
  then show ?case by simp
next
  case (Cons a xs)
  show ?case
  proof (cases xs)
    case Nil
    with Cons.prems show ?thesis by simp
  next
    case outer: (Cons b ys)
    show ?thesis
    proof (cases ys)
      case Nil
      with outer assms(2) show ?thesis by simp
    next
      case (Cons c zs)
      with outer Cons.IH assms(3) show ?thesis by simp
    qed
  qed
qed

lemma sum_count_list_distinct:
  "distinct vs \<Longrightarrow> sum_list (map (\<lambda>x. count_list token x) vs) = length (filter (\<lambda>p. p \<in> set vs) token)"
proof (induction token)
  case Nil
  then show ?case by (induction vs) auto
next
  case (Cons p token)
  have "sum_list (map (\<lambda>x. count_list (p # token) x) vs)
        = sum_list (map (\<lambda>x. count_list token x) vs) + sum_list (map (\<lambda>x. if p = x then 1 else 0) vs)"
    by (induction vs) auto
  moreover have "sum_list (map (\<lambda>x. if p = x then 1 else 0) vs) = (if p \<in> set vs then 1 else (0::nat))"
    using Cons.prems by (induction vs) auto
  ultimately show ?case using Cons by simp
qed

lemma vowel_count_simps [simp]:
  "vowel_count st [] = 0"
  "vowel_count st (p # ps) = (if p \<in> set (vowels st) then Suc (vowel_count st ps) else vowel_count st ps)"
  "vowel_count st (xs @ ys) = vowel_count st xs + vowel_count st ys"
  by (simp_all add: vowel_count_def)

lemma has_vowel_iff: "has_vowel st s \<longleftrightarrow> 0 < vowel_count st s"
  by (induction s) (auto simp: has_vowel_def)

lemma vs_step_content:
  "vs_content (validate_syllables_step st s syl) = vs_content s @ syl"
proof (cases s)
  case (Pair valid front)
  show ?thesis
  proof (cases "valid = []")
    case True
    with Pair show ?thesis by (simp add: validate_syllables_step_def vs_content_def)
  next
    case False
    then have "concat (butlast valid @ [last valid @ syl]) = concat valid @ syl"
      by (metis append_butlast_last_id concat.simps(1) concat.simps(2) concat_append append_assoc append_Nil2)
    with False Pair show ?thesis by (simp add: validate_syllables_step_def vs_content_def)
  qed
qed

lemma vs_foldl_content:
  "vs_content (foldl (validate_syllables_step st) s sl) = vs_content s @ concat sl"
  by (induction sl arbitrary: s) (simp_all add: vs_step_content)

lemma vs_step_has_vowel:
  assumes "\<forall>v\<in>set (fst s). has_vowel st v"
  shows "\<forall>v\<in>set (fst (validate_syllables_step st s syl)). has_vowel st v"
proof (cases s)
  case (Pair valid front)
  show ?thesis
  proof (cases "valid = []")
    case True
    with Pair show ?thesis
      by (auto simp: validate_syllables_step_def has_vowel_iff)
  next
    case False
    then have "set (butlast valid @ [last valid @ syl]) \<subseteq> insert (last valid @ syl) (set valid)"
      by (auto dest: in_set_butlastD)
    moreover have "has_vowel st (last valid @ syl)"
      using False assms Pair by (simp add: has_vowel_iff)
    ultimately show ?thesis
      using False assms Pair by (auto simp: validate_syllables_step_def)
  qed
qed

lemma vs_foldl_has_vowel:
  "\<forall>v\<in>set (fst s). has_vowel st v \<Longrightarrow>
   \<forall>v\<in>set (fst (foldl (validate_syllables_step st) s sl)). has_vowel st v"
proof (induction sl arbitrary: s)
  case Nil
  then show ?case by simp
next
  case (Cons syl sl)
  show ?case
    by simp (rule Cons.IH, rule vs_step_has_vowel, rule Cons.prems)
qed

lemma validate_syllables_has_vowel:
  "\<forall>v\<in>set (validate_syllables st sl). has_vowel st v"
  unfolding validate_syllables_def by (rule vs_foldl_has_vowel) simp

lemma vs_step_bound:
  assumes "\<forall>v\<in>set (fst s). vowel_count st v \<le> k" "vowel_count st (snd s) = 0"
    and "vowel_count st syl \<le> k"
  shows "(\<forall>v\<in>set (fst (validate_syllables_step st s syl)). vowel_count st v \<le> k) \<and>
         vowel_count st (snd (validate_syllables_step st s syl)) = 0"
proof (cases s)
  case (Pair valid front)
  show ?thesis
  proof (cases "valid = []")
    case True
    with Pair assms show ?thesis
      by (auto simp: validate_syllables_step_def has_vowel_iff)
  next
    case False
    then have sub: "set (butlast valid @ [last valid @ syl]) \<subseteq> insert (last valid @ syl) (set valid)"
      by (auto dest: in_set_butlastD)
    have "\<not> has_vowel st syl \<Longrightarrow> vowel_count st (last valid @ syl) \<le> k"
      using False assms Pair by (simp add: has_vowel_iff)
    with sub show ?thesis
      using False assms Pair by (auto simp: validate_syllables_step_def)
  qed
qed

lemma vs_foldl_bound:
  "\<forall>v\<in>set (fst s). vowel_count st v \<le> k \<Longrightarrow> vowel_count st (snd s) = 0 \<Longrightarrow>
   \<forall>syl\<in>set sl. vowel_count st syl \<le> k \<Longrightarrow>
   \<forall>v\<in>set (fst (foldl (validate_syllables_step st) s sl)). vowel_count st v \<le> k"
proof (induction sl arbitrary: s)
  case Nil
  then show ?case by simp
next
  case (Cons syl sl)
  have "vowel_count st syl \<le> k" using Cons.prems(3) by simp
  from vs_step_bound [OF Cons.prems(1,2) this]
  have "\<forall>v\<in>set (fst (foldl (validate_syllables_step st) (validate_syllables_step st s syl) sl)).
          vowel_count st v \<le> k"
    using Cons.prems(3) by (intro Cons.IH) simp_all
  then show ?case by simp
qed

lemma validate_syllables_bound:
  "\<forall>syl\<in>set sl. vowel_count st syl \<le> k \<Longrightarrow>
   \<forall>v\<in>set (validate_syllables st sl). vowel_count st v \<le> k"
  unfolding validate_syllables_def by (rule vs_foldl_bound) simp_all

lemma vs_step_empty:
  "fst (validate_syllables_step st s syl) = [] \<longleftrightarrow> fst s = [] \<and> \<not> has_vowel st syl"
  by (cases s) (auto simp: validate_syllables_step_def)

lemma vs_foldl_empty:
  "fst (foldl (validate_syllables_step st) s sl) = [] \<longleftrightarrow>
   fst s = [] \<and> (\<forall>syl\<in>set sl. \<not> has_vowel st syl)"
  by (induction sl arbitrary: s) (simp_all add: vs_step_empty)

lemma validate_syllables_concat:
  assumes "\<exists>syl\<in>set sl. has_vowel st syl"
  shows "concat (validate_syllables st sl) = concat sl"
proof -
  let ?s = "foldl (validate_syllables_step st) ([], []) sl"
  have "fst ?s \<noteq> []" using assms by (simp add: vs_foldl_empty)
  then have "vs_content ?s = concat (fst ?s)" by (simp add: vs_content_def)
  moreover have "vs_content ?s = vs_content ([], []) @ concat sl"
    by (rule vs_foldl_content)
  moreover have "vs_content ([], []) = []"
    by (simp add: vs_content_def)
  ultimately show ?thesis by (simp add: validate_syllables_def)
qed

lemma find_vowels_snoc:
  "find_vowels st (xs @ [x]) =
     (case find_vowels st xs of (first_vowel_i, multi_vowel) \<Rightarrow>
        if x \<in> set (vowels st) then
          (if first_vowel_i = - 1 then (int (length xs), multi_vowel) else (first_vowel_i, True))
        else (first_vowel_i, multi_vowel))"
  by (simp add: find_vowels_def enumerate_append_eq split: prod.splits)

lemma find_vowels_eq:
  "find_vowels st syl =
     (if vowel_count st syl = 0 then (- 1, False)
      else (int (length (takeWhile (\<lambda>phone. phone \<notin> set (vowels st)) syl)),
            2 \<le> vowel_count st syl))"
proof (induction syl rule: rev_induct)
  case Nil
  then show ?case by (simp add: find_vowels_def)
next
  case (snoc x xs)
  have none: "vowel_count st xs = 0 \<Longrightarrow> takeWhile (\<lambda>phone. phone \<notin> set (vowels st)) xs = xs"
    by (induction xs) (auto split: if_splits)
  have some: "vowel_count st xs \<noteq> 0 \<Longrightarrow> \<exists>y\<in>set xs. \<not> y \<notin> set (vowels st)"
    by (induction xs) (auto split: if_splits)
  show ?case
  proof (cases "vowel_count st xs = 0")
    case True
    then have "\<forall>y\<in>set xs. y \<notin> set (vowels st)"
      by (induction xs) (auto split: if_splits)
    then have "takeWhile (\<lambda>phone. phone \<notin> set (vowels st)) (xs @ [x]) =
               xs @ takeWhile (\<lambda>phone. phone \<notin> set (vowels st)) [x]"
      by (simp add: takeWhile_append2)
    with True snoc show ?thesis by (simp add: find_vowels_snoc)
  next
    case False
    from some [OF False] have "takeWhile (\<lambda>phone. phone \<notin> set (vowels st)) (xs @ [x]) =
               takeWhile (\<lambda>phone. phone \<notin> set (vowels st)) xs"
      by (auto simp: takeWhile_append1)
    with False snoc show ?thesis by (auto simp: find_vowels_snoc)
  qed
qed

lemma validate_syllables2_loop_eq:
  "\<forall>syl\<in>set sl. has_vowel st syl \<Longrightarrow>
   validate_syllables2_loop st valid sl = Inr (valid @ concat (map (split_after_first_vowel st) sl))"
proof (induction sl arbitrary: valid)
  case Nil
  then show ?case by simp
next
  case (Cons syl sl)
  then have "0 < vowel_count st syl" by (simp add: has_vowel_iff)
  with Cons show ?case
    by (simp add: find_vowels_eq split_after_first_vowel_def nat_add_distrib Let_def)
qed

lemma validate_syllables2_eq:
  "\<forall>syl\<in>set sl. has_vowel st syl \<Longrightarrow>
   validate_syllables2 st sl = Inr (concat (map (split_after_first_vowel st) sl))"
  by (simp add: validate_syllables2_def validate_syllables2_loop_eq)

lemma validate_syllables2_loop_no_assert:
  "\<forall>syl\<in>set sl. has_vowel st syl \<Longrightarrow> validate_syllables2_loop st valid sl \<noteq> Inl AssertionError"
  by (simp add: validate_syllables2_loop_eq)

lemma concat_split_after_first_vowel [simp]:
  "concat (split_after_first_vowel st syl) = syl"
  by (simp add: split_after_first_vowel_def Let_def)

lemma concat_map_split:
  "concat (concat (map (split_after_first_vowel st) sl)) = concat sl"
  by (induction sl) simp_all

lemma vowel_count_take_first:
  "0 < vowel_count st syl \<Longrightarrow>
   vowel_count st (take (Suc (length (takeWhile (\<lambda>phone. phone \<notin> set (vowels st)) syl))) syl) = 1"
  by (induction syl) (auto split: if_splits)

lemma vowel_count_drop_first:
  "0 < vowel_count st syl \<Longrightarrow>
   vowel_count st (drop (Suc (length (takeWhile (\<lambda>phone. phone \<notin> set (vowels st)) syl))) syl) =
   vowel_count st syl - 1"
  by (induction syl) (auto split: if_splits)

lemma split_after_first_vowel_one:
  assumes "1 \<le> vowel_count st syl" "vowel_count st syl \<le> 2"
  shows "\<forall>part\<in>set (split_after_first_vowel st syl). vowel_count st part = 1"
  using assms
  by (auto simp: split_after_first_vowel_def Let_def vowel_count_take_first vowel_count_drop_first)

lemma tokenize_step_content:
  "tokenize_step (acc, cur) (a, b, c) = (acc', cur') \<Longrightarrow>
   concat acc' @ cur' = concat acc @ cur @ [fst b]"
  by (auto simp: tokenize_step_def split: prod.splits if_splits)

lemma scan_concat:
  assumes "2 \<le> length rest"
  shows "foldl tokenize_step (acc, cur) (ngrams3 rest) = (sl, s) \<Longrightarrow>
         concat (sl @ [s @ [fst (last rest)]]) = concat acc @ cur @ map fst (tl rest)"
  using assms
proof (induction rest arbitrary: acc cur rule: two_or_more_induct)
  case (Two a b)
  then show ?case by auto
next
  case (More a b c xs)
  obtain acc' cur' where step: "tokenize_step (acc, cur) (a, b, c) = (acc', cur')"
    by fastforce
  from More.prems step have "foldl tokenize_step (acc', cur') (ngrams3 (b # c # xs)) = (sl, s)"
    by simp
  from More.IH [OF this] tokenize_step_content [OF step] show ?case
    by simp
qed

lemma tokenize_step_inv:
  assumes "ranked st t a" "ranked st t b" "ranked st t c"
    and "\<forall>v\<in>set acc. vowel_count st v \<le> 2" "scan_inv st cur a b"
    and "tokenize_step (acc, cur) (a, b, c) = (acc', cur')"
  shows "(\<forall>v\<in>set acc'. vowel_count st v \<le> 2) \<and> scan_inv st cur' b c"
proof -
  obtain pa ra pb rb pc rc where abc: "a = (pa, ra)" "b = (pb, rb)" "c = (pc, rc)"
    by (cases a, cases b, cases c) auto
  consider (plateau) "ra \<ge> rb \<and> rb = rc"
    | (valley) "\<not> (ra \<ge> rb \<and> rb = rc)" "ra > rb \<and> rb < rc"
    | (none) "\<not> (ra \<ge> rb \<and> rb = rc)" "\<not> (ra > rb \<and> rb < rc)"
    by blast
  then show ?thesis
  proof cases
    case plateau
    then have "acc' = acc @ [cur @ [pb]]" "cur' = []"
      using assms(6) by (simp_all add: abc tokenize_step_def)
    moreover have "vowel_count st (cur @ [pb]) \<le> 2"
      using assms(1,2,5) unfolding abc ranked_def scan_inv_def by (cases "pb \<in> set (vowels st)") auto
    ultimately show ?thesis
      using assms(4) by (simp add: scan_inv_def)
  next
    case valley
    then have "acc' = acc @ [cur]" "cur' = [pb]"
      using assms(6) by (simp_all add: abc tokenize_step_def)
    moreover have "vowel_count st cur \<le> 2" "pb \<notin> set (vowels st)"
      using assms(2,3,5) valley unfolding abc ranked_def scan_inv_def by auto
    ultimately show ?thesis
      using assms(4) by (simp add: scan_inv_def)
  next
    case none
    then have eq: "acc' = acc" "cur' = cur @ [pb]"
      using assms(6) by (auto simp: abc tokenize_step_def split: if_splits)
    have "scan_inv st (cur @ [pb]) (pb, rb) (pc, rc)"
      using assms(1,2,3,5) none unfolding abc ranked_def scan_inv_def
      by (cases "pb \<in> set (vowels st)"; cases "pa \<in> set (vowels st)") auto
    with eq assms(4) show ?thesis by (simp add: abc)
  qed
qed

lemma scan_bound:
  assumes "2 \<le> length rest"
  shows "\<forall>x\<in>set rest. ranked st t x \<Longrightarrow> \<forall>v\<in>set acc. vowel_count st v \<le> 2 \<Longrightarrow>
         scan_inv st cur (rest ! 0) (rest ! 1) \<Longrightarrow>
         foldl tokenize_step (acc, cur) (ngrams3 rest) = (sl, s) \<Longrightarrow>
         \<forall>v\<in>set (sl @ [s @ [fst (last rest)]]). vowel_count st v \<le> 2"
  using assms
proof (induction rest arbitrary: acc cur rule: two_or_more_induct)
  case (Two a b)
  then show ?case
    by (auto simp: scan_inv_def ranked_def)
next
  case (More a b c xs)
  obtain acc' cur' where step: "tokenize_step (acc, cur) (a, b, c) = (acc', cur')"
    by fastforce
  from More.prems step have run: "foldl tokenize_step (acc', cur') (ngrams3 (b # c # xs)) = (sl, s)"
    by simp
  have "(\<forall>v\<in>set acc'. vowel_count st v \<le> 2) \<and> scan_inv st cur' b c"
    using More.prems(1,2,3) step by (intro tokenize_step_inv [where a = a and acc = acc and cur = cur and t = t]) simp_all
  with More.IH [OF _ _ _ run] More.prems(1) show ?case
    by simp
qed

lemma assign_values_fst:
  "map fst (assign_values st token) = filter (\<lambda>c. phoneme_map st c \<noteq> None) token"
  by (induction token) (auto split: option.splits)

lemma assign_values_ranked:
  "vowels_on_top st t \<Longrightarrow> \<forall>x\<in>set (assign_values st token). ranked st t x"
proof (induction token)
  case Nil
  then show ?case by simp
next
  case (Cons c token)
  have "phoneme_map st c = Some r \<Longrightarrow> ranked st t (c, r)" for r
    using Cons.prems unfolding vowels_on_top_def ranked_def
    by (cases "c \<in> set (vowels st)") fastforce+
  with Cons show ?case by (auto split: option.splits)
qed

lemma vowel_count_known:
  "vowels_registered st \<Longrightarrow>
   vowel_count st (filter (\<lambda>c. phoneme_map st c \<noteq> None) token) = vowel_count st token"
  by (induction token) (auto simp: vowels_registered_def list_all_iff)

lemma vowel_count_le_length: "vowel_count st s \<le> length s"
  by (simp add: vowel_count_def)

lemma vowel_count_concat_pos:
  "0 < vowel_count st (concat sl) \<Longrightarrow> \<exists>syl\<in>set sl. has_vowel st syl"
  by (induction sl) (auto simp: has_vowel_iff)

lemma vowel_sum_eq_count:
  "vowels_registered st \<Longrightarrow>
   sum_list (map (\<lambda>x. count_list token x) (vowels st)) = vowel_count st token"
  by (simp add: vowels_registered_def sum_count_list_distinct vowel_count_def)

lemma assign_values_count:
  "vowels_registered st \<Longrightarrow>
   vowel_count st (map fst (assign_values st token)) = vowel_count st token"
  by (simp only: assign_values_fst vowel_count_known)

lemma tokenize_eq:
  assumes "vowels_registered st"
  shows "tokenize st token =
     (if vowel_count st token \<le> 1 then Inr [token]
      else validate_syllables2 st
             (validate_syllables st (tentative_syllables (assign_values st token))))"
proof (cases "vowel_count st token \<le> 1")
  case True
  with assms show ?thesis by (simp add: tokenize_def vowel_sum_eq_count)
next
  case False
  then have "0 < vowel_count st (map fst (assign_values st token))"
    using assms by (simp add: assign_values_count)
  then have "assign_values st token \<noteq> []" by auto
  then obtain first rest where "assign_values st token = first # rest"
    by (cases "assign_values st token") auto
  with False assms show ?thesis
    by (simp add: tokenize_def vowel_sum_eq_count tentative_syllables_def split: prod.splits)
qed

lemma tentative_concat:
  assumes "2 \<le> length sv"
  shows "concat (tentative_syllables sv) = map fst sv"
proof -
  obtain sl s where run: "foldl tokenize_step ([], [fst (hd sv)]) (ngrams3 sv) = (sl, s)"
    by fastforce
  from assms have "sv \<noteq> []" by auto
  then have "[fst (hd sv)] @ map fst (tl sv) = map fst sv"
    by (cases sv) auto
  with scan_concat [OF assms run] run show ?thesis
    by (simp add: tentative_syllables_def)
qed

lemma tentative_bound:
  assumes "2 \<le> length sv" "\<forall>x\<in>set sv. ranked st t x"
  shows "\<forall>v\<in>set (tentative_syllables sv). vowel_count st v \<le> 2"
proof -
  obtain sl s where run: "foldl tokenize_step ([], [fst (hd sv)]) (ngrams3 sv) = (sl, s)"
    by fastforce
  from assms(1) obtain a b rest where sv: "sv = a # b # rest"
    by (cases sv; cases "tl sv") auto
  have "scan_inv st [fst (hd sv)] (sv ! 0) (sv ! 1)"
    by (simp add: sv scan_inv_def)
  from scan_bound [OF assms(1) assms(2) _ this run] run show ?thesis
    by (simp add: tentative_syllables_def)
qed

lemma tokenize_many_vowels:
  assumes "vowels_registered st" "2 \<le> vowel_count st token"
  defines "tent \<equiv> tentative_syllables (assign_values st token)"
  shows "tokenize st token =
           Inr (concat (map (split_after_first_vowel st) (validate_syllables st tent)))"
    and "concat (validate_syllables st tent) = filter (\<lambda>c. phoneme_map st c \<noteq> None) token"
    and "2 \<le> length (assign_values st token)"
proof -
  have count: "vowel_count st (map fst (assign_values st token)) = vowel_count st token"
    using assms(1) by (rule assign_values_count)
  have "vowel_count st (map fst (assign_values st token)) \<le> length (map fst (assign_values st token))"
    by (rule vowel_count_le_length)
  with count assms(2) show len: "2 \<le> length (assign_values st token)" by simp
  then have cat: "concat tent = map fst (assign_values st token)"
    unfolding tent_def by (rule tentative_concat)
  with count assms(2) have "0 < vowel_count st (concat tent)" by simp
  then have ex: "\<exists>syl\<in>set tent. has_vowel st syl" by (rule vowel_count_concat_pos)
  then show "concat (validate_syllables st tent) = filter (\<lambda>c. phoneme_map st c \<noteq> None) token"
    by (simp add: validate_syllables_concat cat assign_values_fst)
  have "tokenize st token = validate_syllables2 st (validate_syllables st tent)"
    using assms(1,2) by (simp add: tokenize_eq tent_def)
  then show "tokenize st token =
           Inr (concat (map (split_after_first_vowel st) (validate_syllables st tent)))"
    by (simp add: validate_syllables2_eq validate_syllables_has_vowel)
qed

lemma tokenize_concat_general:
  assumes "vowels_registered st"
  shows "\<exists>sl. tokenize st token = Inr sl \<and>
           concat sl = (if vowel_count st token \<le> 1 then token
                        else filter (\<lambda>c. phoneme_map st c \<noteq> None) token)"
proof (cases "vowel_count st token \<le> 1")
  case True
  with assms show ?thesis by (simp add: tokenize_eq)
next
  case False
  then have "2 \<le> vowel_count st token" by simp
  from tokenize_many_vowels(1,2) [OF assms this] False show ?thesis
    by (simp add: concat_map_split)
qed

lemma tokenize_vowel_general:
  assumes "vowels_registered st" "vowels_on_top st t"
  shows "if vowel_count st token \<le> 1 then tokenize st token = Inr [token]
         else (\<exists>sl. tokenize st token = Inr sl \<and> (\<forall>syl\<in>set sl. vowel_count st syl = 1))"
proof (cases "vowel_count st token \<le> 1")
  case True
  with assms show ?thesis by (simp add: tokenize_eq)
next
  case False
  then have two: "2 \<le> vowel_count st token" by simp
  let ?tent = "tentative_syllables (assign_values st token)"
  have "\<forall>v\<in>set ?tent. vowel_count st v \<le> 2"
    using tokenize_many_vowels(3) [OF assms(1) two] assign_values_ranked [OF assms(2)]
    by (rule tentative_bound)
  then have "\<forall>v\<in>set (validate_syllables st ?tent). vowel_count st v \<le> 2"
    by (rule validate_syllables_bound)
  moreover have "\<forall>v\<in>set (validate_syllables st ?tent). 1 \<le> vowel_count st v"
    using validate_syllables_has_vowel [of st ?tent] by (auto simp: has_vowel_iff)
  ultimately have "\<forall>v\<in>set (validate_syllables st ?tent).
      \<forall>part\<in>set (split_after_first_vowel st v). vowel_count st part = 1"
    using split_after_first_vowel_one by blast
  with tokenize_many_vowels(1) [OF assms(1) two] False show ?thesis
    by auto
qed

lemma repair_never_asserts:
  "validate_syllables2 st (validate_syllables st sl) \<noteq> Inl AssertionError"
  by (simp add: validate_syllables2_eq validate_syllables_has_vowel)

lemma tokenize_never_asserts: "tokenize st token \<noteq> Inl AssertionError"
  by (simp add: tokenize_def Let_def repair_never_asserts split: list.splits prod.splits)

subsection \<open>The claims about tokenize\<close>

text \<open>
  C1, as the code has it: for a tokenizer whose vowels are registered without repetition,
  tokenize always returns, and the concatenation of the returned syllables is the input
  sequence itself when the input has at most one vowel, and otherwise the input sequence
  without the symbols that have no entry in the sonority map, the others in their order.
  So the input is reproduced exactly whenever all its symbols are in the map; a symbol absent
  from the map is dropped from an input of two or more vowels.
\<close>

theorem tokenize_coverage:
  assumes "vowels_registered st"
  shows "\<exists>syllable_list. tokenize st token = Inr syllable_list \<and>
           concat syllable_list =
             (if vowel_count st token \<le> 1 then token
              else filter (\<lambda>c. phoneme_map st c \<noteq> None) token)"
  using assms by (rule tokenize_concat_general)

theorem tokenize_coverage_witness:
  "vowels_registered SSP \<and>
   (\<exists>syllable_list. tokenize SSP [''AH0'', ''XX'', ''AH1''] = Inr syllable_list \<and>
      concat syllable_list = [''AH0'', ''AH1''])"
proof -
  have "(if vowel_count SSP [''AH0'', ''XX'', ''AH1''] \<le> 1 then [''AH0'', ''XX'', ''AH1'']
         else filter (\<lambda>c. phoneme_map SSP c \<noteq> None) [''AH0'', ''XX'', ''AH1'']) = [''AH0'', ''AH1'']"
    by code_simp
  with tokenize_coverage [OF SSP_vowels_registered, of "[''AH0'', ''XX'', ''AH1'']"]
  show ?thesis
    using SSP_vowels_registered by simp
qed

text \<open>
  The claim C1 as it was stated (the concatenation is the input also for sequences with
  symbols absent from the map) fails: the unknown symbol XX between two vowels is lost.
\<close>

theorem tokenize_drops_unknown_symbol:
  "tokenize SSP [''AH0'', ''XX'', ''AH1''] = Inr [[''AH0''], [''AH1'']] \<and>
   concat [[''AH0''], [''AH1'']] \<noteq> [''AH0'', ''XX'', ''AH1'']"
  by code_simp

text \<open>
  C2: for every input phoneme sequence, if it has at most one vowel phoneme (membership in
  the vowel level) then tokenize returns exactly one syllable, the whole input; otherwise
  every returned syllable has exactly one vowel phoneme. Proved for every tokenizer whose
  vowels are registered without repetition and carry the highest sonority value, as those
  of the default tokenizer do.
\<close>

theorem tokenize_vowel_invariant:
  assumes "vowels_registered st" "vowels_on_top st t"
  shows "if vowel_count st token \<le> 1 then tokenize st token = Inr [token]
         else (\<exists>syllable_list. tokenize st token = Inr syllable_list \<and>
                 list_all (\<lambda>syl. vowel_count st syl = 1) syllable_list)"
proof (cases "vowel_count st token \<le> 1")
  case True
  with tokenize_vowel_general [OF assms, of token] show ?thesis by simp
next
  case False
  with tokenize_vowel_general [OF assms, of token]
  obtain sl where "tokenize st token = Inr sl" "\<forall>syl\<in>set sl. vowel_count st syl = 1"
    by auto
  with False show ?thesis by (auto simp: list_all_iff)
qed

theorem tokenize_vowel_invariant_witness:
  "vowels_registered SSP \<and> vowels_on_top SSP 5 \<and>
   \<not> vowel_count SSP [''W'', ''AH1'', ''N'', ''D'', ''ER0'', ''F'', ''AH0'', ''L''] \<le> 1 \<and>
   (\<exists>syllable_list.
      tokenize SSP [''W'', ''AH1'', ''N'', ''D'', ''ER0'', ''F'', ''AH0'', ''L''] = Inr syllable_list \<and>
      list_all (\<lambda>syl. vowel_count SSP syl = 1) syllable_list) \<and>
   vowel_count SSP [''N''] \<le> 1 \<and> tokenize SSP [''N''] = Inr [[''N'']]"
proof -
  have many: "\<not> vowel_count SSP [''W'', ''AH1'', ''N'', ''D'', ''ER0'', ''F'', ''AH0'', ''L''] \<le> 1"
    by code_simp
  have few: "vowel_count SSP [''N''] \<le> 1"
    by code_simp
  from tokenize_vowel_invariant [OF SSP_vowels_registered SSP_vowels_on_top,
      of "[''W'', ''AH1'', ''N'', ''D'', ''ER0'', ''F'', ''AH0'', ''L'']"]
    tokenize_vowel_invariant [OF SSP_vowels_registered SSP_vowels_on_top, of "[''N'']"]
    many few SSP_vowels_registered SSP_vowels_on_top
  show ?thesis by simp
qed

text \<open>
  C3: every syllable that leaves the merge pass validate\_syllables, and so enters the
  single-vowel pass validate\_syllables2, has a vowel, whatever the syllable list; hence the
  assertion of validate\_syllables2 fails neither on the output of the merge pass nor in any
  call of tokenize.
\<close>

theorem repair_assertion_never_fails:
  "list_all (has_vowel st) (validate_syllables st syllable_list) \<and>
   validate_syllables2 st (validate_syllables st syllable_list) \<noteq> Inl AssertionError \<and>
   tokenize st token \<noteq> Inl AssertionError"
  using validate_syllables_has_vowel [of st syllable_list]
  by (simp add: list_all_iff repair_never_asserts tokenize_never_asserts)

text \<open>
  C4: example 5 of the specification, under the default English hierarchy.
\<close>

theorem tokenize_example5:
  "tokenize SSP [''EH2'', ''K'', ''S'', ''T'', ''R'', ''AH0'', ''AO1'', ''R'', ''D'', ''AH0'',
                 ''N'', ''EH2'', ''R'', ''IY0''] =
   Inr [[''EH2'', ''K'', ''S''], [''T'', ''R'', ''AH0''], [''AO1'', ''R''], [''D'', ''AH0''],
        [''N'', ''EH2''], [''R'', ''IY0'']]"
  by code_simp

lemma tokenize_two_vowels:
  assumes "vowels_registered st" "a \<in> set (vowels st)" "b \<in> set (vowels st)"
  shows "tokenize st [a, b] = Inr [[a], [b]]"
proof -
  from assms have "phoneme_map st a \<noteq> None" "phoneme_map st b \<noteq> None"
    by (simp_all add: vowels_registered_def list_all_iff)
  then obtain ra rb where r: "phoneme_map st a = Some ra" "phoneme_map st b = Some rb"
    by blast
  have vc: "vowel_count st [a, b] = 2" using assms(2,3) by simp
  have sv: "assign_values st [a, b] = [(a, ra), (b, rb)]" using r by simp
  have tent: "tentative_syllables [(a, ra), (b, rb)] = [[a, b]]"
    by (simp add: tentative_syllables_def)
  have "validate_syllables st [[a, b]] = [[a, b]]"
    using assms(2) by (simp add: validate_syllables_def validate_syllables_step_def has_vowel_def)
  moreover have "split_after_first_vowel st [a, b] = [[a], [b]]"
    using assms(2,3) by (simp add: split_after_first_vowel_def)
  ultimately show ?thesis
    using tokenize_many_vowels(1) [OF assms(1), of "[a, b]"] vc sv tent by simp
qed

text \<open>
  C5, as the code has it: an input of one phoneme is returned as one syllable; an input of
  two phonemes is returned as one syllable unless both phonemes are vowels, and then it is
  split into two syllables of one phoneme each.
\<close>

theorem tokenize_short:
  assumes "vowels_registered st" "length token = 1 \<or> length token = 2"
  shows "tokenize st token =
           (if vowel_count st token = 2 then Inr [[token ! 0], [token ! 1]] else Inr [token])"
proof (cases "vowel_count st token = 2")
  case True
  moreover have "vowel_count st token \<le> length token" by (rule vowel_count_le_length)
  ultimately have "length token = 2" using assms(2) by simp
  then obtain a b where token: "token = [a, b]"
    by (cases token; cases "tl token") auto
  with True have "a \<in> set (vowels st)" "b \<in> set (vowels st)"
    by (auto split: if_splits)
  from tokenize_two_vowels [OF assms(1) this] True token show ?thesis by simp
next
  case False
  moreover have "vowel_count st token \<le> length token" by (rule vowel_count_le_length)
  ultimately have "vowel_count st token \<le> 1" using assms(2) by auto
  with assms(1) False show ?thesis by (simp add: tokenize_eq)
qed

theorem tokenize_short_witness:
  "vowels_registered SSP \<and>
   tokenize SSP [''AH0'', ''AO1''] = Inr [[''AH0''], [''AO1'']] \<and>
   tokenize SSP [''N'', ''AO1''] = Inr [[''N'', ''AO1'']] \<and>
   tokenize SSP [''N''] = Inr [[''N'']]"
proof -
  have "vowel_count SSP [''AH0'', ''AO1''] = 2" "vowel_count SSP [''N'', ''AO1''] \<noteq> 2"
    "vowel_count SSP [''N''] \<noteq> 2"
    by code_simp+
  with tokenize_short [OF SSP_vowels_registered, of "[''AH0'', ''AO1'']"]
    tokenize_short [OF SSP_vowels_registered, of "[''N'', ''AO1'']"]
    tokenize_short [OF SSP_vowels_registered, of "[''N'']"]
    SSP_vowels_registered
  show ?thesis by simp
qed

text \<open>
  The claim C5 as it was stated (no input of length two is split) fails on two vowels.
\<close>

theorem tokenize_splits_two_vowels:
  "tokenize SSP [''AH0'', ''AO1''] = Inr [[''AH0''], [''AO1'']] \<and>
   [[''AH0''], [''AO1'']] \<noteq> [[''AH0'', ''AO1'']]"
  by code_simp

text \<open>
  C10: tokenize applied to the empty phoneme sequence returns the one-element list holding
  the empty syllable, not the empty list and not an error; so a syllable returned by
  tokenize may be empty.
\<close>

theorem tokenize_empty_token:
  "tokenize st [] = Inr [[]] \<and>
   (\<exists>token syllable_list. tokenize st token = Inr syllable_list \<and> [] \<in> set syllable_list)"
proof -
  have "tokenize st [] = Inr [[]]"
    by (simp add: tokenize_def)
  then show ?thesis
    by fastforce
qed

section \<open>Properties of syllable\<close>

lemma py_slice_in_range:
  assumes "0 \<le> start" "0 \<le> n"
  shows "py_slice xs start (start + n) = take (nat n) (drop (nat start) xs)"
proof (cases "nat start \<le> length xs")
  case True
  let ?ys = "drop (nat start) xs"
  have "min (nat (start + n)) (length xs) - nat start = min (nat n) (length ?ys)"
    using True assms by (simp add: nat_add_distrib) arith
  moreover have "take (min (nat n) (length ?ys)) ?ys = take (nat n) ?ys"
    by (simp add: min_def)
  moreover have "py_slice xs start (start + n) =
                 take (min (nat (start + n)) (length xs) - nat start) ?ys"
    using True assms by (simp add: py_slice_def py_slice_index_def min_def Let_def)
  ultimately show ?thesis by simp
next
  case False
  with assms show ?thesis
    by (simp add: py_slice_def py_slice_index_def)
qed

lemma word_syllables_tokenize:
  assumes "vowels_registered st" "2 < length w"
  shows "tokenize st w = Inr (word_syllables st w)"
proof -
  from tokenize_concat_general [OF assms(1), of w] obtain sl where "tokenize st w = Inr sl"
    by blast
  with assms(2) show ?thesis by (simp add: word_syllables_def)
qed

lemma syllable_loop_eq:
  assumes "vowels_registered st"
  shows "0 \<le> start \<Longrightarrow> list_all (\<lambda>n. 0 \<le> n) phone_nums \<Longrightarrow>
         nat start + sum_list (map nat phone_nums) \<le> length phones \<Longrightarrow>
         syllable_loop st phones start (syllables, counts) phone_nums =
           Inr (syllables @ map (join '' '')
                  (concat (map (word_syllables st)
                     (word_slices (drop (nat start) phones) (map nat phone_nums)))),
                counts @ map (\<lambda>syl. int (length syl))
                  (concat (map (word_syllables st)
                     (word_slices (drop (nat start) phones) (map nat phone_nums)))))"
proof (induction phone_nums arbitrary: start syllables counts)
  case Nil
  then show ?case by simp
next
  case (Cons n phone_nums)
  let ?w = "take (nat n) (drop (nat start) phones)"
  from Cons.prems have n: "0 \<le> n" and rest: "list_all (\<lambda>n. 0 \<le> n) phone_nums" by simp_all
  have slice: "py_slice phones start (start + n) = ?w"
    using Cons.prems(1) n by (rule py_slice_in_range)
  have len: "length ?w = nat n" using Cons.prems(3) by simp
  have next_start: "0 \<le> start + n" "nat (start + n) = nat start + nat n"
    using Cons.prems(1) n by (simp_all add: nat_add_distrib)
  have bound: "nat (start + n) + sum_list (map nat phone_nums) \<le> length phones"
    using Cons.prems(3) next_start by simp
  have drop: "drop (nat n) (drop (nat start) phones) = drop (nat (start + n)) phones"
    by (metis drop_drop next_start(2) add.commute)
  show ?case
  proof (cases "n \<le> 2")
    case True
    then have "nat n \<le> 2" by simp
    with len have "length ?w \<le> 2" by (simp only:)
    then have "word_syllables st ?w = [?w]" by (simp only: word_syllables_def if_True)
    moreover have "int (length ?w) = n" using len n by simp
    ultimately show ?thesis
      using True slice drop Cons.IH [OF next_start(1) rest bound] by (simp add: Let_def)
  next
    case False
    then have "2 < nat n" by simp
    with len have "2 < length ?w" by (simp only:)
    then have "tokenize st ?w = Inr (word_syllables st ?w)"
      using assms word_syllables_tokenize by blast
    then show ?thesis
      using False slice drop Cons.IH [OF next_start(1) rest bound] by (simp add: Let_def)
  qed
qed

lemma concat_word_slices: "concat (word_slices xs ns) = take (sum_list ns) xs"
proof (induction ns arbitrary: xs)
  case Nil
  then show ?case by simp
next
  case (Cons n ns)
  have "take n xs @ take (sum_list ns) (drop n xs) = take (n + sum_list ns) xs"
    by (simp add: take_add)
  with Cons show ?case by simp
qed

lemma set_word_slices: "w \<in> set (word_slices xs ns) \<Longrightarrow> set w \<subseteq> set xs"
proof (induction ns arbitrary: xs)
  case Nil
  then show ?case by simp
next
  case (Cons n ns)
  then show ?case
    by (auto dest: in_set_takeD in_set_dropD)
qed

lemma concat_word_syllables:
  assumes "vowels_registered st" "\<forall>p\<in>set w. phoneme_map st p \<noteq> None"
  shows "concat (word_syllables st w) = w"
proof (cases "length w \<le> 2")
  case True
  then show ?thesis by (simp add: word_syllables_def)
next
  case False
  from assms(2) have "filter (\<lambda>c. phoneme_map st c \<noteq> None) w = w"
    by (simp only: filter_id_conv) 
  with tokenize_concat_general [OF assms(1), of w] False show ?thesis
    by (auto simp: word_syllables_def split: if_splits)
qed

lemma sum_lengths: "sum_list (map (\<lambda>syl. int (length syl)) sl) = int (length (concat sl))"
  by (induction sl) simp_all

text \<open>
  C9, as the code has it: for every phones list and every list of non-negative per-word
  phone counts whose sum is the number of phones, syllable returns, in word order, the
  syllables of the words (each joined by blanks) with their phone counts: a word of at most
  two phones is one unsplit syllable, a longer word gives the syllables tokenize makes of
  its slice. The counts sum to the number of phones when every phone is in the sonority map.
\<close>

theorem syllable_by_words:
  assumes "vowels_registered st" "list_all (\<lambda>n. 0 \<le> n) phone_nums"
    and "sum_list phone_nums = int (length phones)"
  shows "syllable st phones phone_nums =
           Inr (map (join '' '')
                  (concat (map (word_syllables st) (word_slices phones (map nat phone_nums)))),
                map (\<lambda>syl. int (length syl))
                  (concat (map (word_syllables st) (word_slices phones (map nat phone_nums))))) \<and>
         (list_all (\<lambda>p. phoneme_map st p \<noteq> None) phones \<longrightarrow>
          sum_list (map (\<lambda>syl. int (length syl))
            (concat (map (word_syllables st) (word_slices phones (map nat phone_nums))))) =
          int (length phones))"
proof (intro conjI impI)
  have total: "sum_list (map nat phone_nums) = length phones"
  proof -
    have "int (sum_list (map nat ns)) = sum_list ns" if "list_all (\<lambda>n. 0 \<le> n) ns" for ns :: "int list"
      using that by (induction ns) simp_all
    with assms(2,3) show ?thesis by (metis of_nat_eq_iff)
  qed
  then have "nat 0 + sum_list (map nat phone_nums) \<le> length phones" by simp
  from syllable_loop_eq [OF assms(1) _ assms(2) this, of "[]" "[]"]
  show "syllable st phones phone_nums =
           Inr (map (join '' '')
                  (concat (map (word_syllables st) (word_slices phones (map nat phone_nums)))),
                map (\<lambda>syl. int (length syl))
                  (concat (map (word_syllables st) (word_slices phones (map nat phone_nums)))))"
    by (simp add: syllable_def)
  assume "list_all (\<lambda>p. phoneme_map st p \<noteq> None) phones"
  then have known: "\<forall>p\<in>set phones. phoneme_map st p \<noteq> None"
    by (simp add: list_all_iff)
  let ?ws = "word_slices phones (map nat phone_nums)"
  have each: "concat (word_syllables st w) = w" if "w \<in> set ?ws" for w
  proof -
    from that have "set w \<subseteq> set phones" by (rule set_word_slices)
    with known have "\<forall>p\<in>set w. phoneme_map st p \<noteq> None" by blast
    with assms(1) show ?thesis by (rule concat_word_syllables)
  qed
  have "concat (concat (map (word_syllables st) ws)) = concat ws"
    if "\<forall>w\<in>set ws. concat (word_syllables st w) = w" for ws
    using that by (induction ws) simp_all
  with each have "concat (concat (map (word_syllables st) ?ws)) = concat ?ws" by blast
  also have "\<dots> = phones" by (simp add: concat_word_slices total)
  finally show "sum_list (map (\<lambda>syl. int (length syl)) (concat (map (word_syllables st) ?ws))) =
          int (length phones)"
    by (simp add: sum_lengths)
qed

theorem syllable_by_words_witness:
  "vowels_registered SSP \<and> list_all (\<lambda>n. 0 \<le> n) [2, 8 :: int] \<and>
   sum_list [2, 8] = int (length [''HH'', ''AY1'', ''W'', ''AH1'', ''N'', ''D'', ''ER0'', ''F'', ''AH0'', ''L'']) \<and>
   syllable SSP [''HH'', ''AY1'', ''W'', ''AH1'', ''N'', ''D'', ''ER0'', ''F'', ''AH0'', ''L''] [2, 8] =
     Inr ([''HH AY1'', ''W AH1 N'', ''D ER0'', ''F AH0 L''], [2, 3, 2, 3]) \<and>
   list_all (\<lambda>p. phoneme_map SSP p \<noteq> None)
     [''HH'', ''AY1'', ''W'', ''AH1'', ''N'', ''D'', ''ER0'', ''F'', ''AH0'', ''L''] \<and>
   sum_list [2, 3, 2, 3] = int (length [''HH'', ''AY1'', ''W'', ''AH1'', ''N'', ''D'', ''ER0'', ''F'', ''AH0'', ''L''])"
proof -
  let ?P = "[''HH'', ''AY1'', ''W'', ''AH1'', ''N'', ''D'', ''ER0'', ''F'', ''AH0'', ''L'']"
  have nums: "list_all (\<lambda>n. 0 \<le> n) [2, 8 :: int]" "sum_list [2, 8] = int (length ?P)"
    by simp_all
  have words: "concat (map (word_syllables SSP) (word_slices ?P (map nat [2, 8]))) =
               [[''HH'', ''AY1''], [''W'', ''AH1'', ''N''], [''D'', ''ER0''], [''F'', ''AH0'', ''L'']]"
    by code_simp
  have known: "list_all (\<lambda>p. phoneme_map SSP p \<noteq> None) ?P"
    by code_simp
  note inst = syllable_by_words [OF SSP_vowels_registered nums, unfolded words]
  from inst known have "syllable SSP ?P [2, 8] =
      Inr ([''HH AY1'', ''W AH1 N'', ''D ER0'', ''F AH0 L''], [2, 3, 2, 3])"
    by simp
  with known nums SSP_vowels_registered show ?thesis
    by simp
qed

text \<open>
  The claim C9 as it was stated (the counts always sum to the number of phones) fails on a
  word with a symbol absent from the sonority map: tokenize drops the symbol.
\<close>

theorem syllable_counts_fall_short:
  "syllable SSP [''AH0'', ''XX'', ''AH1''] [3] = Inr ([''AH0'', ''AH1''], [1, 1]) \<and>
   sum_list [3] = int (length [''AH0'', ''XX'', ''AH1'']) \<and>
   sum_list [1, 1] \<noteq> int (length [''AH0'', ''XX'', ''AH1''])"
  by code_simp

section \<open>Properties of split\_zh\_en\<close>

lemma concat_findall_runs: "concat (findall_runs cn s) = s"
  by (induction cn s rule: findall_runs.induct) simp_all

lemma filter_dropWhile_neg:
  "filter (\<lambda>c. \<not> P c) (dropWhile P xs) = filter (\<lambda>c. \<not> P c) xs"
  by (induction xs) simp_all

lemma filter_strip: "filter (\<lambda>c. \<not> isspace c) (strip s) = filter (\<lambda>c. \<not> isspace c) s"
proof -
  have "filter (\<lambda>c. \<not> isspace c) (strip s) =
        rev (filter (\<lambda>c. \<not> isspace c) (dropWhile isspace (rev (dropWhile isspace s))))"
    by (simp add: strip_def rev_filter)
  also have "\<dots> = rev (filter (\<lambda>c. \<not> isspace c) (rev (dropWhile isspace s)))"
    by (simp only: filter_dropWhile_neg)
  also have "\<dots> = filter (\<lambda>c. \<not> isspace c) (dropWhile isspace s)"
    by (simp add: rev_filter)
  also have "\<dots> = filter (\<lambda>c. \<not> isspace c) s"
    by (rule filter_dropWhile_neg)
  finally show ?thesis .
qed

lemma filter_kept_segments:
  "filter (\<lambda>c. \<not> isspace c) (concat (map strip (filter (\<lambda>seg. strip seg \<noteq> []) segments))) =
   filter (\<lambda>c. \<not> isspace c) (concat segments)"
proof (induction segments)
  case Nil
  then show ?case by simp
next
  case (Cons seg segments)
  show ?case
  proof (cases "strip seg = []")
    case True
    with filter_strip [of seg] have "filter (\<lambda>c. \<not> isspace c) seg = []" by simp
    with True Cons show ?thesis by simp
  next
    case False
    with Cons filter_strip [of seg] show ?thesis by simp
  qed
qed



lemma runs_example:
  assumes "cn 20320" "cn 22909" "cn 19990" "cn 30028" "\<not> cn 72" "\<not> cn 101" "\<not> cn 108"
      "\<not> cn 111" "\<not> cn 87" "\<not> cn 114" "\<not> cn 100"
  shows "findall_runs cn [20320, 22909, 72, 101, 108, 108, 111, 19990, 30028, 87, 111, 114, 108, 100] =
      [[20320, 22909], [72, 101, 108, 108, 111], [19990, 30028], [87, 111, 114, 108, 100]]"
  using assms by simp


lemma strips_example:
  "strip [20320, 22909] = [20320, 22909]" "strip [72, 101, 108, 108, 111] = [72, 101, 108, 108, 111]"
      "strip [19990, 30028] = [19990, 30028]" "strip [87, 111, 114, 108, 100] = [87, 111, 114, 108, 100]"
  by (simp_all add: strip_def isspace_def)


lemma split_example:
  assumes "cn 20320" "cn 22909" "cn 19990" "cn 30028" "\<not> cn 72" "\<not> cn 101" "\<not> cn 108"
      "\<not> cn 111" "\<not> cn 87" "\<not> cn 114" "\<not> cn 100"
  shows "split_zh_en cn [20320, 22909, 72, 101, 108, 108, 111, 19990, 30028, 87, 111, 114, 108, 100] =
      [[20320, 22909], [72, 101, 108, 108, 111], [19990, 30028], [87, 111, 114, 108, 100]]"
  unfolding split_zh_en_def runs_example [OF assms] Let_def
  by (simp add: strips_example)

text \<open>
  C8: for every input string, split\_zh\_en returns only non-empty segments, and the
  non-whitespace characters of the concatenated segments are exactly those of the input, in
  the same order; and for every character class that has the four Chinese characters and
  none of the Latin letters, the string of the docstring is split into its four runs.
\<close>

theorem split_zh_en_segments:
  "list_all (\<lambda>seg. seg \<noteq> []) (split_zh_en cn s) \<and>
   filter (\<lambda>c. \<not> isspace c) (concat (split_zh_en cn s)) = filter (\<lambda>c. \<not> isspace c) s \<and>
   (list_all cn [20320, 22909, 19990, 30028] \<and>
    list_all (\<lambda>c. \<not> cn c) [72, 101, 108, 111, 87, 114, 100] \<longrightarrow>
    split_zh_en cn [20320, 22909, 72, 101, 108, 108, 111, 19990, 30028, 87, 111, 114, 108, 100] =
      [[20320, 22909], [72, 101, 108, 108, 111], [19990, 30028], [87, 111, 114, 108, 100]])"
proof (intro conjI impI)
  show "list_all (\<lambda>seg. seg \<noteq> []) (split_zh_en cn s)"
    by (simp add: split_zh_en_def list_all_iff)
  show "filter (\<lambda>c. \<not> isspace c) (concat (split_zh_en cn s)) = filter (\<lambda>c. \<not> isspace c) s"
    unfolding split_zh_en_def Let_def filter_kept_segments concat_findall_runs ..
next
  assume "list_all cn [20320, 22909, 19990, 30028] \<and>
          list_all (\<lambda>c. \<not> cn c) [72, 101, 108, 111, 87, 114, 100]"
  then have "cn 20320" "cn 22909" "cn 19990" "cn 30028" "\<not> cn 72" "\<not> cn 101" "\<not> cn 108"
      "\<not> cn 111" "\<not> cn 87" "\<not> cn 114" "\<not> cn 100"
    by simp_all
  then show "split_zh_en cn [20320, 22909, 72, 101, 108, 108, 111, 19990, 30028, 87, 111, 114, 108, 100] =
      [[20320, 22909], [72, 101, 108, 108, 111], [19990, 30028], [87, 111, 114, 108, 100]]"
    by (rule split_example)
qed

theorem split_zh_en_segments_witness:
  "list_all (\<lambda>c. 19968 \<le> c \<and> c \<le> 40959) [20320, 22909, 19990, 30028 :: nat] \<and>
   list_all (\<lambda>c. \<not> (19968 \<le> c \<and> c \<le> 40959)) [72, 101, 108, 111, 87, 114, 100 :: nat] \<and>
   split_zh_en (\<lambda>c. 19968 \<le> c \<and> c \<le> 40959)
     [20320, 22909, 72, 101, 108, 108, 111, 19990, 30028, 87, 111, 114, 108, 100] =
      [[20320, 22909], [72, 101, 108, 108, 111], [19990, 30028], [87, 111, 114, 108, 100]]"
proof -
  have h: "list_all (\<lambda>c. 19968 \<le> c \<and> c \<le> 40959) [20320, 22909, 19990, 30028 :: nat] \<and>
           list_all (\<lambda>c. \<not> (19968 \<le> c \<and> c \<le> 40959)) [72, 101, 108, 111, 87, 114, 100 :: nat]"
    by simp
  from split_zh_en_segments [of "\<lambda>c. 19968 \<le> c \<and> c \<le> 40959" "[]"] h
  show ?thesis by blast
qed

end
